theory Spec2Isabelle
  imports Main "HOL-Library.AList"
begin

section \<open>History entries of a project (namespace pxt.workspace)\<close>

text \<open>
  \<open>ScriptText\<close> is \<open>pxt.Map<string>\<close>: a JavaScript object from file names to file
  contents. It is modelled as an association list in insertion order, which is the order
  \<open>Object.keys\<close> enumerates the (non-numeric) keys of an object. Reading a key is
  \<^const>\<open>map_of\<close>, an absent key reads as \<open>undefined\<close> (\<open>None\<close>); \<open>result[k] = v\<close> is
  \<^const>\<open>AList.update\<close> (in place for a key that is there, at the end for a new one),
  \<open>delete result[k]\<close> is \<^const>\<open>AList.delete\<close>, and the copy \<open>{...text}\<close> is the list
  itself. The keys of an object are unique: \<open>distinct (map fst text)\<close>.

  The list holds the own properties of the object. A JavaScript read \<open>text[k]\<close> also finds
  what the object inherits from \<open>Object.prototype\<close> (\<open>constructor\<close>, \<open>toString\<close>, ...), an
  assignment to \<open>__proto__\<close> creates no property, and integer-like keys are enumerated
  before the others. So the model is exact for the names that are neither inherited nor
  integer-like. Every tracked name is one of them, since it contains a dot (lemma
  \<open>tracked_dot\<close> below); statements about a file that need not be tracked assume it.
\<close>

type_synonym ScriptText = "(string \<times> string) list"

text \<open>
  A \<open>FileChange\<close> is a union tagged by \<open>type\<close>; the payload of an edit has the type
  \<open>any\<close>, here the type parameter \<open>'p\<close>.
\<close>

datatype 'p FileChange =
    Added (filename: string) string
  | Removed (filename: string) string
  | Edited (filename: string) 'p

record 'p HistoryEntry =
  timestamp :: int
  editorVersion :: string
  changes :: "'p FileChange list"

record CollapseHistoryOptions =
  interval :: int
  minTime :: "int option"
  maxTime :: "int option"

text \<open>
  The only failure the three functions have of their own is the \<open>TypeError\<close> that
  JavaScript raises on reading a property of \<open>undefined\<close>.
\<close>

datatype error = TypeError

section \<open>diffScriptText\<close>

definition endsWith :: "string \<Rightarrow> string \<Rightarrow> bool" where
  "endsWith s suf \<longleftrightarrow>
     length suf \<le> length s \<and> drop (length s - length suf) s = suf"

text \<open>The test that both loops of \<open>diffScriptText\<close> make before looking at a file.\<close>

definition tracked :: "string \<Rightarrow> bool" where
  "tracked file \<longleftrightarrow>
     endsWith file ''.ts'' \<or> endsWith file ''.jres'' \<or> endsWith file ''.py'' \<or>
     endsWith file ''.blocks'' \<or> file = ''pxt.json''"

text \<open>
  One iteration of the first loop, over the keys of \<open>oldVersion\<close>: \<open>v\<close> is
  \<open>oldVersion[file]\<close>.
\<close>

definition oldChange ::
  "ScriptText \<Rightarrow> (string \<Rightarrow> string \<Rightarrow> 'p) \<Rightarrow> string \<times> string \<Rightarrow> 'p FileChange option"
where
  "oldChange newVersion diff fv =
     (case fv of (file, v) \<Rightarrow>
        if \<not> tracked file then None
        else (case map_of newVersion file of
                None \<Rightarrow> Some (Removed file v)
              | Some w \<Rightarrow> if v \<noteq> w then Some (Edited file (diff w v)) else None))"

text \<open>One iteration of the second loop, over the keys of \<open>newVersion\<close>.\<close>

definition newChange :: "ScriptText \<Rightarrow> string \<times> string \<Rightarrow> 'p FileChange option" where
  "newChange oldVersion fv =
     (case fv of (file, w) \<Rightarrow>
        if \<not> tracked file then None
        else (case map_of oldVersion file of
                None \<Rightarrow> Some (Added file w)
              | Some v \<Rightarrow> None))"

definition diffChanges ::
  "ScriptText \<Rightarrow> ScriptText \<Rightarrow> (string \<Rightarrow> string \<Rightarrow> 'p) \<Rightarrow> 'p FileChange list"
where
  "diffChanges oldVersion newVersion diff =
     List.map_filter (oldChange newVersion diff) oldVersion @
     List.map_filter (newChange oldVersion) newVersion"

text \<open>
  \<open>now\<close> is the value of \<open>Date.now()\<close> and \<open>target\<close> the value of
  \<open>pxt.appTarget?.versions?.target\<close> at the call; \<open>None\<close> is the result \<open>undefined\<close>.
\<close>

definition diffScriptText ::
  "ScriptText \<Rightarrow> ScriptText \<Rightarrow> (string \<Rightarrow> string \<Rightarrow> 'p) \<Rightarrow> int \<Rightarrow> string
     \<Rightarrow> 'p HistoryEntry option"
where
  "diffScriptText oldVersion newVersion diff now target =
     (let cs = diffChanges oldVersion newVersion diff
      in if cs = [] then None
         else Some \<lparr>timestamp = now, editorVersion = target, changes = cs\<rparr>)"

section \<open>applyDiff\<close>

text \<open>
  The body of the loop of \<open>applyDiff\<close>. An edit reads the file in \<open>text\<close>, the snapshot
  the function was given, not in \<open>result\<close>; for a file that is not there the read is
  \<open>undefined\<close>, and \<open>patch\<close> is called with it: the second argument of \<open>patch\<close> is
  therefore a \<open>string option\<close>.
\<close>

fun applyChange ::
  "('p \<Rightarrow> string option \<Rightarrow> string) \<Rightarrow> ScriptText \<Rightarrow> ScriptText \<Rightarrow> 'p FileChange \<Rightarrow> ScriptText"
where
  "applyChange patch text result (Added file v) = AList.delete file result"
| "applyChange patch text result (Removed file v) = AList.update file v result"
| "applyChange patch text result (Edited file p) =
     AList.update file (patch p (map_of text file)) result"

definition applyDiff ::
  "ScriptText \<Rightarrow> 'p HistoryEntry \<Rightarrow> ('p \<Rightarrow> string option \<Rightarrow> string) \<Rightarrow> ScriptText"
where
  "applyDiff text history patch = foldl (applyChange patch text) text (changes history)"

section \<open>collapseHistory\<close>

text \<open>
  The variables \<open>lastTimeIndex\<close>, \<open>lastTime\<close>, \<open>lastVersion\<close> and \<open>lastTimeText\<close> describe
  the open group. The last three are read only where \<open>lastTimeIndex\<close> is not
  \<open>undefined\<close>, and they are assigned wherever \<open>lastTimeIndex\<close> is assigned an index, so the
  four are one optional record: \<open>None\<close> is \<open>lastTimeIndex === undefined\<close>.
\<close>

record grp =
  lastTimeIndex :: nat
  lastTime :: int
  lastVersion :: string
  lastTimeText :: ScriptText

record 'p state =
  newHistory :: "'p HistoryEntry list"
  current :: ScriptText
  group :: "grp option"

text \<open>
  The three places that put the open group in front of \<open>newHistory\<close>: \<open>multi\<close> is the
  test of the place (\<open>lastTimeIndex - i > 1\<close> in the loop, \<open>lastTimeIndex\<close> after it) and
  \<open>orig\<close> the entry of its \<open>else\<close> branch. \<open>diffScriptText(...).changes\<close> on the result
  \<open>undefined\<close> raises.
\<close>

definition flush ::
  "(string \<Rightarrow> string \<Rightarrow> 'p) \<Rightarrow> int \<Rightarrow> string \<Rightarrow> bool \<Rightarrow> 'p HistoryEntry \<Rightarrow> grp \<Rightarrow> ScriptText
     \<Rightarrow> 'p HistoryEntry list \<Rightarrow> error + 'p HistoryEntry list"
where
  "flush diff now target multi orig g cur nh =
     (if multi then
        (case diffScriptText cur (lastTimeText g) diff now target of
           None \<Rightarrow> Inl TypeError
         | Some d \<Rightarrow>
             Inr (\<lparr>timestamp = lastTime g, editorVersion = lastVersion g,
                   changes = changes d\<rparr> # nh))
      else Inr (orig # nh))"

text \<open>
  The body of the loop at index \<open>i\<close>; \<open>minT\<close> and \<open>maxT\<close> are the bounds after defaulting.

  Times and the interval are JavaScript numbers with integer values, modelled as \<open>int\<close>.
  The comparisons of the source are exact on them. Its subtraction
  \<open>lastTime - entry.timestamp\<close> is exact as long as the difference is at most \<open>2 ^ 53\<close> in
  magnitude, which holds when both times are at most \<open>2 ^ 52\<close> in magnitude (every time in
  epoch milliseconds is); beyond that the source rounds the difference to a double, and
  the \<open>int\<close> difference below is not what it computes. A statement that concludes what
  the test \<open>lastTime - entry.timestamp > interval\<close> does from the exact difference
  therefore assumes that range.
\<close>

definition step ::
  "'p HistoryEntry list \<Rightarrow> int \<Rightarrow> int \<Rightarrow> int \<Rightarrow> (string \<Rightarrow> string \<Rightarrow> 'p)
     \<Rightarrow> ('p \<Rightarrow> string option \<Rightarrow> string) \<Rightarrow> int \<Rightarrow> string \<Rightarrow> nat \<Rightarrow> 'p state
     \<Rightarrow> error + 'p state"
where
  "step history ival minT maxT diff patch now target i st =
     (let entry = history ! i in
      if timestamp entry > maxT then
        Inr (st\<lparr>newHistory := entry # newHistory st,
                current := applyDiff (current st) entry patch\<rparr>)
      else if timestamp entry < minT then
        (case group st of
           None \<Rightarrow> Inr (st\<lparr>newHistory := entry # newHistory st, group := None\<rparr>)
         | Some g \<Rightarrow>
             (case flush diff now target (int (lastTimeIndex g) - int i > 1)
                     (history ! lastTimeIndex g) g (current st) (newHistory st) of
                Inl e \<Rightarrow> Inl e
              | Inr nh \<Rightarrow> Inr (st\<lparr>newHistory := entry # nh, group := None\<rparr>)))
      else
        (case group st of
           None \<Rightarrow>
             Inr (st\<lparr>group := Some \<lparr>lastTimeIndex = i, lastTime = timestamp entry,
                                    lastVersion = editorVersion entry,
                                    lastTimeText = current st\<rparr>,
                     current := applyDiff (current st) entry patch\<rparr>)
         | Some g \<Rightarrow>
             if lastTime g - timestamp entry > ival then
               (case flush diff now target (int (lastTimeIndex g) - int i > 1)
                       (history ! lastTimeIndex g) g (current st) (newHistory st) of
                  Inl e \<Rightarrow> Inl e
                | Inr nh \<Rightarrow>
                    Inr \<lparr>newHistory = nh,
                         current = applyDiff (current st) entry patch,
                         group = Some \<lparr>lastTimeIndex = i, lastTime = timestamp entry,
                                       lastVersion = editorVersion entry,
                                       lastTimeText = current st\<rparr>\<rparr>)
             else Inr (st\<lparr>current := applyDiff (current st) entry patch\<rparr>)))"

text \<open>
  The loop \<open>for (let i = history.length - 1; i >= 0; i--)\<close>: the counter is \<open>i + 1\<close>, the
  number of entries still to visit, and an exception leaves the loop.
\<close>

fun loop ::
  "'p HistoryEntry list \<Rightarrow> int \<Rightarrow> int \<Rightarrow> int \<Rightarrow> (string \<Rightarrow> string \<Rightarrow> 'p)
     \<Rightarrow> ('p \<Rightarrow> string option \<Rightarrow> string) \<Rightarrow> int \<Rightarrow> string \<Rightarrow> nat \<Rightarrow> 'p state
     \<Rightarrow> error + 'p state"
where
  "loop history ival minT maxT diff patch now target 0 st = Inr st"
| "loop history ival minT maxT diff patch now target (Suc i) st =
     (case step history ival minT maxT diff patch now target i st of
        Inl e \<Rightarrow> Inl e
      | Inr st' \<Rightarrow> loop history ival minT maxT diff patch now target i st')"

text \<open>The defaults of the options; \<open>history[history.length - 1]\<close> of an empty log is
  \<open>undefined\<close>, and reading its \<open>timestamp\<close> raises.\<close>

definition minTimeOf :: "CollapseHistoryOptions \<Rightarrow> int" where
  "minTimeOf options = (case minTime options of None \<Rightarrow> 0 | Some m \<Rightarrow> m)"

definition maxTimeOf :: "'p HistoryEntry list \<Rightarrow> CollapseHistoryOptions \<Rightarrow> error + int" where
  "maxTimeOf history options =
     (case maxTime options of
        Some m \<Rightarrow> Inr m
      | None \<Rightarrow> if history = [] then Inl TypeError else Inr (timestamp (last history)))"

definition collapseHistory ::
  "'p HistoryEntry list \<Rightarrow> ScriptText \<Rightarrow> CollapseHistoryOptions \<Rightarrow> (string \<Rightarrow> string \<Rightarrow> 'p)
     \<Rightarrow> ('p \<Rightarrow> string option \<Rightarrow> string) \<Rightarrow> int \<Rightarrow> string \<Rightarrow> error + 'p HistoryEntry list"
where
  "collapseHistory history text options diff patch now target =
     (case maxTimeOf history options of
        Inl e \<Rightarrow> Inl e
      | Inr maxT \<Rightarrow>
          (case loop history (interval options) (minTimeOf options) maxT diff patch now target
                  (length history) \<lparr>newHistory = [], current = text, group = None\<rparr> of
             Inl e \<Rightarrow> Inl e
           | Inr st \<Rightarrow>
               (case group st of
                  None \<Rightarrow> Inr (newHistory st)
                | Some g \<Rightarrow>
                    flush diff now target (lastTimeIndex g \<noteq> 0) (history ! 0) g
                      (current st) (newHistory st))))"

section \<open>Auxiliary notions\<close>

text \<open>
  What is known of the open group before the entry at index \<open>n - 1\<close> is visited: it was
  opened at an entry already visited, inside the window, and carries that entry's time.
\<close>

definition grp_ok :: "'p HistoryEntry list \<Rightarrow> int \<Rightarrow> int \<Rightarrow> nat \<Rightarrow> 'p state \<Rightarrow> bool" where
  "grp_ok h mn mx n st \<longleftrightarrow>
     (case group st of
        None \<Rightarrow> True
      | Some g \<Rightarrow> n \<le> lastTimeIndex g \<and> lastTimeIndex g < length h \<and>
          lastTime g = timestamp (h ! lastTimeIndex g) \<and> mn \<le> lastTime g \<and> lastTime g \<le> mx)"

text \<open>
  The index below which every entry of the log is at most as late as the entries emitted
  so far.
\<close>

definition bound :: "'p state \<Rightarrow> nat \<Rightarrow> nat" where
  "bound s n = (case group s of None \<Rightarrow> n | Some g \<Rightarrow> Suc (lastTimeIndex g))"

text \<open>The entry passes both window tests of the loop.\<close>

definition inWindow :: "int \<Rightarrow> int \<Rightarrow> 'p HistoryEntry \<Rightarrow> bool" where
  "inWindow mn mx e \<longleftrightarrow> mn \<le> timestamp e \<and> timestamp e \<le> mx"

text \<open>Two entries that both lie inside the window are more than the interval apart.\<close>

definition apart :: "int \<Rightarrow> int \<Rightarrow> int \<Rightarrow> 'p HistoryEntry \<Rightarrow> 'p HistoryEntry \<Rightarrow> bool" where
  "apart iv mn mx a b \<longleftrightarrow> (inWindow mn mx a \<and> inWindow mn mx b \<longrightarrow> iv < timestamp b - timestamp a)"

text \<open>
  The first entry emitted so far, if it is inside the window, is more than the interval
  later than the open group; with no group open it is outside the window.
\<close>

definition head_apart :: "int \<Rightarrow> int \<Rightarrow> int \<Rightarrow> 'p state \<Rightarrow> bool" where
  "head_apart iv mn mx s \<longleftrightarrow>
     (case newHistory s of [] \<Rightarrow> True
      | e # _ \<Rightarrow> (case group s of None \<Rightarrow> \<not> inWindow mn mx e
                  | Some g \<Rightarrow> inWindow mn mx e \<longrightarrow> iv < timestamp e - lastTime g))"

text \<open>What one change leaves at its file, whatever the result held before.\<close>

definition changeEffect ::
  "('p \<Rightarrow> string option \<Rightarrow> string) \<Rightarrow> ScriptText \<Rightarrow> 'p FileChange \<Rightarrow> string option" where
  "changeEffect patch text c =
     (case c of Added file v \<Rightarrow> None | Removed file v \<Rightarrow> Some v
      | Edited file p \<Rightarrow> Some (patch p (map_of text file)))"

text \<open>
  A diff and patch pair for the examples: the payload of an edit is the whole previous
  content, so that \<open>fullPatch (fullDiff a b) (Some a) = b\<close>.
\<close>

definition fullDiff :: "string \<Rightarrow> string \<Rightarrow> string" where
  "fullDiff a b = b"

definition fullPatch :: "string \<Rightarrow> string option \<Rightarrow> string" where
  "fullPatch p t = p"

text \<open>An entry at time \<open>t\<close> that edits the file \<open>a.ts\<close>, whose content before it was \<open>v\<close>.\<close>

definition edit :: "int \<Rightarrow> string \<Rightarrow> string HistoryEntry" where
  "edit t v = \<lparr>timestamp = t, editorVersion = ''1.0'', changes = [Edited ''a.ts'' v]\<rparr>"

section \<open>The loop of collapseHistory\<close>

lemmas run_defs = collapseHistory_def maxTimeOf_def minTimeOf_def step_def flush_def
  applyDiff_def diffScriptText_def diffChanges_def List.map_filter_def oldChange_def
  newChange_def tracked_def endsWith_def fullDiff_def fullPatch_def edit_def

text \<open>A property that the body of the loop maintains holds when the loop is left normally.\<close>

lemma loop_invariant:
  assumes "loop h iv mn mx d p now tg n st = Inr st'"
    and "P n st"
    and "\<And>i s s'. i < n \<Longrightarrow> P (Suc i) s \<Longrightarrow> step h iv mn mx d p now tg i s = Inr s' \<Longrightarrow> P i s'"
  shows "P 0 st'"
  using assms
proof (induction n arbitrary: st)
  case 0
  then show ?case by simp
next
  case (Suc n)
  from Suc.prems(1) obtain s1 where s1: "step h iv mn mx d p now tg n st = Inr s1"
    and l: "loop h iv mn mx d p now tg n s1 = Inr st'"
    by (auto split: sum.splits)
  have "P n s1"
    using Suc.prems(3)[of n st s1] Suc.prems(2) s1 by simp
  moreover have "\<And>i s s'. i < n \<Longrightarrow> P (Suc i) s
      \<Longrightarrow> step h iv mn mx d p now tg i s = Inr s' \<Longrightarrow> P i s'"
    using Suc.prems(3) by simp
  ultimately show ?case
    using Suc.IH[OF l] by blast
qed

lemma flush_Inr:
  assumes "flush d now tg multi orig g cur nh = Inr nh'"
  obtains X where "nh' = X # nh"
    and "timestamp X = (if multi then lastTime g else timestamp orig)"
    and "\<not> multi \<Longrightarrow> X = orig"
  using assms by (auto simp: flush_def split: if_splits option.splits)

lemma step_grp_ok:
  assumes "step h iv mn mx d p now tg i s = Inr s'"
    and "i < length h"
    and "grp_ok h mn mx (Suc i) s"
  shows "grp_ok h mn mx i s'"
  using assms
  by (auto simp: step_def grp_ok_def Let_def split: if_splits option.splits sum.splits)

lemma collapseHistory_Inr:
  assumes "collapseHistory h text options d p now tg = Inr out"
  obtains mx st where "maxTimeOf h options = Inr mx"
    and "loop h (interval options) (minTimeOf options) mx d p now tg (length h)
           \<lparr>newHistory = [], current = text, group = None\<rparr> = Inr st"
    and "(case group st of
            None \<Rightarrow> Inr (newHistory st)
          | Some g \<Rightarrow> flush d now tg (lastTimeIndex g \<noteq> 0) (h ! 0) g (current st)
                        (newHistory st)) = Inr out"
  using assms by (auto simp: collapseHistory_def split: sum.splits)

lemma maxTimeOf_nonempty:
  "h \<noteq> [] \<Longrightarrow> maxTimeOf h options =
     Inr (case maxTime options of None \<Rightarrow> timestamp (last h) | Some m \<Rightarrow> m)"
  by (simp add: maxTimeOf_def split: option.splits)

lemma final_flush:
  assumes "(case group st of
              None \<Rightarrow> Inr (newHistory st)
            | Some g \<Rightarrow> flush d now tg (lastTimeIndex g \<noteq> 0) (h ! 0) g (current st)
                          (newHistory st)) = Inr out"
    and "grp_ok h mn mx 0 st"
  shows "out = newHistory st \<and> group st = None \<or>
     (\<exists>g X. group st = Some g \<and> out = X # newHistory st \<and> timestamp X = lastTime g \<and>
        mn \<le> lastTime g \<and> lastTime g \<le> mx \<and> (lastTimeIndex g = 0 \<longrightarrow> X = h ! 0))"
  using assms
  by (auto simp: grp_ok_def split: option.splits if_splits elim!: flush_Inr)

lemma loop_total:
  assumes "P n st"
    and "\<And>i s. i < n \<Longrightarrow> P (Suc i) s \<Longrightarrow> \<exists>s'. step h iv mn mx d p now tg i s = Inr s' \<and> P i s'"
  shows "\<exists>st'. loop h iv mn mx d p now tg n st = Inr st' \<and> P 0 st'"
  using assms
proof (induction n arbitrary: st)
  case 0
  then show ?case by simp
next
  case (Suc n)
  from Suc.prems(2)[of n st] Suc.prems(1)
  obtain s1 where s1: "step h iv mn mx d p now tg n st = Inr s1" "P n s1"
    by auto
  have "\<And>i s. i < n \<Longrightarrow> P (Suc i) s \<Longrightarrow> \<exists>s'. step h iv mn mx d p now tg i s = Inr s' \<and> P i s'"
    using Suc.prems(2) by simp
  from Suc.IH[OF s1(2) this] show ?case
    using s1(1) by simp
qed

lemma step_cases [consumes 2, case_names above below_none below_some opens flushes absorbs]:
  assumes "step h iv mn mx d p now tg i s = Inr s'"
    and "grp_ok h mn mx (Suc i) s"
  obtains
    "mx < timestamp (h ! i)" "newHistory s' = h ! i # newHistory s" "group s' = group s"
  | "\<not> mx < timestamp (h ! i)" "timestamp (h ! i) < mn" "group s = None"
      "newHistory s' = h ! i # newHistory s" "group s' = None"
  | g X where "\<not> mx < timestamp (h ! i)" "timestamp (h ! i) < mn" "group s = Some g"
      "newHistory s' = h ! i # X # newHistory s" "group s' = None"
      "timestamp X = lastTime g" "lastTimeIndex g = Suc i \<Longrightarrow> X = h ! Suc i"
  | "\<not> mx < timestamp (h ! i)" "\<not> timestamp (h ! i) < mn" "group s = None"
      "newHistory s' = newHistory s"
      "group s' = Some \<lparr>lastTimeIndex = i, lastTime = timestamp (h ! i),
          lastVersion = editorVersion (h ! i), lastTimeText = current s\<rparr>"
  | g X where "\<not> mx < timestamp (h ! i)" "\<not> timestamp (h ! i) < mn" "group s = Some g"
      "iv < lastTime g - timestamp (h ! i)"
      "newHistory s' = X # newHistory s"
      "group s' = Some \<lparr>lastTimeIndex = i, lastTime = timestamp (h ! i),
          lastVersion = editorVersion (h ! i), lastTimeText = current s\<rparr>"
      "timestamp X = lastTime g" "lastTimeIndex g = Suc i \<Longrightarrow> X = h ! Suc i"
  | g where "\<not> mx < timestamp (h ! i)" "\<not> timestamp (h ! i) < mn" "group s = Some g"
      "\<not> iv < lastTime g - timestamp (h ! i)"
      "newHistory s' = newHistory s" "group s' = group s"
proof (cases "mx < timestamp (h ! i)")
  case True
  then show ?thesis using assms(1) that(1) by (auto simp: step_def Let_def)
next
  case nabove: False
  show ?thesis
  proof (cases "group s")
    case None
    then show ?thesis using assms(1) nabove that(2,4)
      by (cases "timestamp (h ! i) < mn") (auto simp: step_def Let_def)
  next
    case (Some g)
    then have g: "lastTime g = timestamp (h ! lastTimeIndex g)"
      using assms(2) by (simp add: grp_ok_def)
    show ?thesis
    proof (cases "timestamp (h ! i) < mn")
      case True
      with assms(1) nabove Some obtain nh where
        f: "flush d now tg (int (lastTimeIndex g) - int i > 1) (h ! lastTimeIndex g) g (current s) (newHistory s) = Inr nh"
        and s': "s' = s\<lparr>newHistory := h ! i # nh, group := None\<rparr>"
        by (auto simp: step_def Let_def split: sum.splits)
      from f obtain X where X: "nh = X # newHistory s"
        "timestamp X = (if int (lastTimeIndex g) - int i > 1 then lastTime g else timestamp (h ! lastTimeIndex g))"
        "\<not> int (lastTimeIndex g) - int i > 1 \<Longrightarrow> X = h ! lastTimeIndex g"
        by (rule flush_Inr) blast
      have "timestamp X = lastTime g" using X(2) g by simp
      moreover have "lastTimeIndex g = Suc i \<Longrightarrow> X = h ! Suc i" using X(3) by simp
      ultimately show ?thesis using that(3)[of g X] nabove True Some s' X(1) by simp
    next
      case nbelow: False
      show ?thesis
      proof (cases "iv < lastTime g - timestamp (h ! i)")
        case True
        with assms(1) nabove nbelow Some obtain nh where
          f: "flush d now tg (int (lastTimeIndex g) - int i > 1) (h ! lastTimeIndex g) g (current s) (newHistory s) = Inr nh"
          and s': "s' = \<lparr>newHistory = nh, current = applyDiff (current s) (h ! i) p,
             group = Some \<lparr>lastTimeIndex = i, lastTime = timestamp (h ! i),
                lastVersion = editorVersion (h ! i), lastTimeText = current s\<rparr>\<rparr>"
          by (auto simp: step_def Let_def split: sum.splits)
        from f obtain X where X: "nh = X # newHistory s"
          "timestamp X = (if int (lastTimeIndex g) - int i > 1 then lastTime g else timestamp (h ! lastTimeIndex g))"
          "\<not> int (lastTimeIndex g) - int i > 1 \<Longrightarrow> X = h ! lastTimeIndex g"
          by (rule flush_Inr) blast
        have "timestamp X = lastTime g" using X(2) g by simp
        moreover have "lastTimeIndex g = Suc i \<Longrightarrow> X = h ! Suc i" using X(3) by simp
        ultimately show ?thesis using that(5)[of g X] nabove nbelow True Some s' X(1) by simp
      next
        case False
        then show ?thesis using assms(1) nabove nbelow Some that(6)[of g]
          by (auto simp: step_def Let_def)
      qed
    qed
  qed
qed

lemma round_trip_full: "\<forall>a b. fullPatch (fullDiff a b) (Some a) = b"
  by (simp add: fullPatch_def fullDiff_def)

section \<open>Properties of diffScriptText and applyDiff\<close>

text \<open>
  A tracked name contains a dot, so it is no member of \<open>Object.prototype\<close> and no
  integer-like key.
\<close>

lemma endsWith_mem:
  assumes "endsWith s suf" and "c \<in> set suf"
  shows "c \<in> set s"
proof -
  from assms(1) have "drop (length s - length suf) s = suf"
    by (simp add: endsWith_def)
  then have "set suf \<subseteq> set s"
    using set_drop_subset[of "length s - length suf" s] by simp
  with assms(2) show ?thesis by blast
qed

lemma tracked_dot: "tracked f \<Longrightarrow> CHR ''.'' \<in> set f"
  unfolding tracked_def
  by (elim disjE) (auto dest: endsWith_mem[where c = "CHR ''.''"])

lemma map_of_applyChange:
  "map_of (applyChange patch text result c) f =
     (if filename c = f then changeEffect patch text c else map_of result f)"
  by (cases c) (auto simp: changeEffect_def AList.update_conv' AList.delete_conv')

lemma foldl_applyChange_other:
  "f \<notin> filename ` set cs \<Longrightarrow>
     map_of (foldl (applyChange patch text) result cs) f = map_of result f"
  by (induction cs arbitrary: result) (auto simp: map_of_applyChange)

lemma foldl_applyChange_mem:
  "distinct (map filename cs) \<Longrightarrow> c \<in> set cs \<Longrightarrow>
     map_of (foldl (applyChange patch text) result cs) (filename c) = changeEffect patch text c"
proof (induction cs arbitrary: result)
  case Nil
  then show ?case by simp
next
  case (Cons x cs)
  show ?case
  proof (cases "c = x")
    case True
    then have "filename c \<notin> filename ` set cs" using Cons.prems(1) by auto
    then show ?thesis using True
      by (simp add: foldl_applyChange_other map_of_applyChange)
  next
    case False
    then show ?thesis using Cons by simp
  qed
qed

lemma oldChange_Some:
  assumes "oldChange newVersion diff fv = Some c"
  shows "filename c = fst fv \<and> tracked (fst fv) \<and>
     (case map_of newVersion (fst fv) of
        None \<Rightarrow> c = Removed (fst fv) (snd fv)
      | Some w \<Rightarrow> snd fv \<noteq> w \<and> c = Edited (fst fv) (diff w (snd fv)))"
  using assms by (cases fv) (auto simp: oldChange_def split: if_splits option.splits)

lemma newChange_Some:
  assumes "newChange oldVersion fv = Some c"
  shows "filename c = fst fv \<and> c = Added (fst fv) (snd fv) \<and> tracked (fst fv) \<and>
     map_of oldVersion (fst fv) = None"
  using assms by (cases fv) (auto simp: newChange_def split: if_splits option.splits)

lemma in_set_map_filter:
  "c \<in> set (List.map_filter g xs) \<longleftrightarrow> (\<exists>x \<in> set xs. g x = Some c)"
  by (induction xs) (auto split: option.splits)

lemma filename_old:
  "map filename (List.map_filter (oldChange newVersion diff) oldVersion) =
     map fst (filter (\<lambda>x. oldChange newVersion diff x \<noteq> None) oldVersion)"
  by (induction oldVersion) (auto split: option.splits dest!: oldChange_Some)

lemma filename_new:
  "map filename (List.map_filter (newChange oldVersion) newVersion) =
     map fst (filter (\<lambda>x. tracked (fst x) \<and> map_of oldVersion (fst x) = None) newVersion)"
  by (induction newVersion) (auto simp: newChange_def split: option.splits if_splits)

lemma diffChanges_mem:
  "c \<in> set (diffChanges oldVersion newVersion diff) \<longleftrightarrow>
     (\<exists>fv \<in> set oldVersion. oldChange newVersion diff fv = Some c) \<or>
     (\<exists>fv \<in> set newVersion. newChange oldVersion fv = Some c)"
  by (simp add: diffChanges_def in_set_map_filter)

lemma diffChanges_tracked:
  "c \<in> set (diffChanges oldVersion newVersion diff) \<Longrightarrow> tracked (filename c)"
  by (auto simp: diffChanges_mem dest!: oldChange_Some newChange_Some)

lemma distinct_diffChanges:
  assumes "distinct (map fst oldVersion)" "distinct (map fst newVersion)"
  shows "distinct (map filename (diffChanges oldVersion newVersion diff))"
proof -
  have "set (map fst (filter (\<lambda>x. oldChange newVersion diff x \<noteq> None) oldVersion)) \<inter>
        set (map fst (filter (\<lambda>x. tracked (fst x) \<and> map_of oldVersion (fst x) = None) newVersion)) = {}"
    by (force simp: map_of_eq_None_iff)
  then show ?thesis using assms
    unfolding diffChanges_def map_append distinct_append filename_old filename_new
    by (simp add: distinct_map_filter)
qed

lemma diffScriptText_Some:
  "diffScriptText oldVersion newVersion diff now target = Some R \<Longrightarrow>
     changes R = diffChanges oldVersion newVersion diff \<and>
     diffChanges oldVersion newVersion diff \<noteq> []"
  by (auto simp: diffScriptText_def Let_def split: if_splits)

lemma old_key_changes:
  assumes "c \<in> set (diffChanges oldVersion newVersion diff)"
  shows "filename c \<in> fst ` set oldVersion \<or>
     (map_of oldVersion (filename c) = None \<and> filename c \<in> fst ` set newVersion)"
  using assms
  by (auto simp: diffChanges_mem dest!: oldChange_Some newChange_Some)

text \<open>
  Claim C2. Let \<open>diff\<close> and \<open>patch\<close> satisfy \<open>patch (diff a b) a = b\<close> for all strings, and
  let \<open>prev\<close> and \<open>S\<close> be snapshots (objects, so their keys are unique). If
  \<open>diffScriptText prev S diff\<close> returns a record \<open>R\<close>, then \<open>applyDiff S R patch\<close> agrees
  with \<open>prev\<close> on every tracked file \<open>f\<close>: a tracked file of \<open>prev\<close> is there with the
  content it has in \<open>prev\<close>, and a tracked file that \<open>prev\<close> does not have is not there.
\<close>

theorem applyDiff_diffScriptText_reverses:
  assumes rt: "\<forall>a b. patch (diff a b) (Some a) = b"
    and dp: "distinct (map fst prev)"
    and ds: "distinct (map fst S)"
    and r: "diffScriptText prev S diff now target = Some R"
    and tr: "tracked f"
  shows "map_of (applyDiff S R patch) f = map_of prev f"
proof -
  let ?cs = "diffChanges prev S diff"
  have cs: "changes R = ?cs"
    using diffScriptText_Some[OF r] by simp
  have dist: "distinct (map filename ?cs)"
    using dp ds by (rule distinct_diffChanges)
  have eff: "map_of (applyDiff S R patch) (filename c) = changeEffect patch S c"
    if "c \<in> set ?cs" for c
    using foldl_applyChange_mem[OF dist that] by (simp add: applyDiff_def cs)
  have oth: "map_of (applyDiff S R patch) f = map_of S f"
    if "f \<notin> filename ` set ?cs"
    using foldl_applyChange_other[OF that] by (simp add: applyDiff_def cs)
  show ?thesis
  proof (cases "map_of prev f")
    case pn: None
    show ?thesis
    proof (cases "map_of S f")
      case None
      have "f \<notin> filename ` set ?cs"
        using old_key_changes[of _ prev S diff] pn None
        by (auto simp: map_of_eq_None_iff)
      then show ?thesis using oth pn None by simp
    next
      case (Some w)
      then have "(f, w) \<in> set S" by (rule map_of_SomeD)
      moreover have "newChange prev (f, w) = Some (Added f w)"
        using tr pn by (simp add: newChange_def)
      ultimately have "Added f w \<in> set ?cs"
        by (auto simp: diffChanges_mem)
      from eff[OF this] show ?thesis using pn by (simp add: changeEffect_def)
    qed
  next
    case ps: (Some v)
    then have mem: "(f, v) \<in> set prev" by (rule map_of_SomeD)
    show ?thesis
    proof (cases "map_of S f")
      case None
      then have "oldChange S diff (f, v) = Some (Removed f v)"
        using tr by (simp add: oldChange_def)
      with mem have "Removed f v \<in> set ?cs"
        by (auto simp: diffChanges_mem)
      from eff[OF this] show ?thesis using ps by (simp add: changeEffect_def)
    next
      case (Some w)
      show ?thesis
      proof (cases "v = w")
        case True
        have "f \<notin> filename ` set ?cs"
        proof
          assume "f \<in> filename ` set ?cs"
          then obtain c where c: "c \<in> set ?cs" "filename c = f" by auto
          from c(1) consider fv where "fv \<in> set prev" "oldChange S diff fv = Some c"
            | fv where "fv \<in> set S" "newChange prev fv = Some c"
            by (auto simp: diffChanges_mem)
          then show False
          proof cases
            case 1
            then have "fst fv = f" using oldChange_Some[OF 1(2)] c(2) by simp
            then have "fv = (f, v)" using 1(1) dp ps by (cases fv) simp
            then show False using 1(2) Some True
              by (auto simp: oldChange_def split: if_splits)
          next
            case 2
            then show False using newChange_Some[OF 2(2)] c(2) ps by simp
          qed
        qed
        then show ?thesis using oth ps Some True by simp
      next
        case False
        then have "oldChange S diff (f, v) = Some (Edited f (diff w v))"
          using tr Some by (simp add: oldChange_def)
        with mem have "Edited f (diff w v) \<in> set ?cs"
          by (auto simp: diffChanges_mem)
        from eff[OF this] show ?thesis using ps Some rt by (simp add: changeEffect_def)
      qed
    qed
  qed
qed

text \<open>
  An instance: \<open>a.ts\<close> is edited, \<open>b.ts\<close> removed and \<open>c.ts\<close> added between the two
  snapshots; rolling back restores \<open>b.ts\<close>.
\<close>

theorem applyDiff_diffScriptText_reverses_witness:
  "diffScriptText [(''a.ts'', ''x''), (''b.ts'', ''y''), (''notes.txt'', ''n'')]
      [(''a.ts'', ''x2''), (''c.ts'', ''z''), (''notes.txt'', ''m'')] fullDiff 0 ''''
    = Some \<lparr>timestamp = 0, editorVersion = '''',
         changes = [Edited ''a.ts'' ''x'', Removed ''b.ts'' ''y'', Added ''c.ts'' ''z'']\<rparr>
   \<and> map_of (applyDiff [(''a.ts'', ''x2''), (''c.ts'', ''z''), (''notes.txt'', ''m'')]
         \<lparr>timestamp = 0, editorVersion = '''',
           changes = [Edited ''a.ts'' ''x'', Removed ''b.ts'' ''y'', Added ''c.ts'' ''z'']\<rparr>
         fullPatch) ''b.ts''
     = map_of [(''a.ts'', ''x''), (''b.ts'', ''y''), (''notes.txt'', ''n'')] ''b.ts''"
proof -
  have r: "diffScriptText [(''a.ts'', ''x''), (''b.ts'', ''y''), (''notes.txt'', ''n'')]
      [(''a.ts'', ''x2''), (''c.ts'', ''z''), (''notes.txt'', ''m'')] fullDiff 0 ''''
    = Some \<lparr>timestamp = 0, editorVersion = '''',
         changes = [Edited ''a.ts'' ''x'', Removed ''b.ts'' ''y'', Added ''c.ts'' ''z'']\<rparr>"
    by (simp add: run_defs)
  have t: "tracked ''b.ts''"
    by (simp add: tracked_def endsWith_def)
  from r applyDiff_diffScriptText_reverses[OF round_trip_full _ _ r t] show ?thesis by simp
qed

text \<open>
  The claim C6 fails on the code: \<open>applyDiff\<close> has no check and no failure of its own.
  For an edit of \<open>a.ts\<close> applied to a snapshot without \<open>a.ts\<close> it returns a snapshot, in
  which \<open>a.ts\<close> now exists with whatever \<open>patch\<close> returned for the text \<open>undefined\<close>.
\<close>

theorem applyDiff_missing_file_counterexample:
  "applyDiff [(''b.ts'', ''y'')]
     \<lparr>timestamp = 0, editorVersion = '''', changes = [Edited ''a.ts'' ''old'']\<rparr> fullPatch
   = [(''b.ts'', ''y''), (''a.ts'', ''old'')]"
  by (simp add: applyDiff_def fullPatch_def)

text \<open>
  Claim C6, as the code has it. \<open>applyDiff\<close> never signals a failure of its own: for an
  \<open>edited\<close> change whose file has a tracked name and is absent from the snapshot (in a
  record that names every file once) it calls \<open>patch\<close> with the text \<open>undefined\<close> and the
  returned snapshot has the file, with the value \<open>patch\<close> returned. The name is tracked so
  that the read \<open>text[filename]\<close> of the source is \<open>undefined\<close> and its assignment creates
  the property: for a name that the object inherits, such as \<open>constructor\<close> or
  \<open>__proto__\<close>, the source reads the inherited value or creates no property, and the
  statement says nothing.
\<close>

theorem applyDiff_edited_missing_file:
  assumes "Edited f p \<in> set (changes R)"
    and "tracked f"
    and "distinct (map filename (changes R))"
    and "map_of S f = None"
  shows "map_of (applyDiff S R patch) f = Some (patch p None)"
  using foldl_applyChange_mem[OF assms(3) assms(1), of patch S S] assms(4)
  by (simp add: applyDiff_def changeEffect_def)

text \<open>An instance of the amended claim C6.\<close>

theorem applyDiff_edited_missing_file_witness:
  "map_of (applyDiff [(''b.ts'', ''y'')]
     \<lparr>timestamp = 0, editorVersion = '''', changes = [Edited ''a.ts'' ''old'']\<rparr> fullPatch) ''a.ts''
   = Some (fullPatch ''old'' None)"
proof -
  have t: "tracked ''a.ts''"
    by (simp add: tracked_def endsWith_def)
  show ?thesis
    using applyDiff_edited_missing_file[of "''a.ts''" "''old''"
        "\<lparr>timestamp = 0, editorVersion = '''', changes = [Edited ''a.ts'' ''old'']\<rparr>"
        "[(''b.ts'', ''y'')]" fullPatch, OF _ t]
    by simp
qed

lemma map_filter_empty:
  "(\<And>x. x \<in> set xs \<Longrightarrow> g x = None) \<Longrightarrow> List.map_filter g xs = []"
  by (induction xs) auto

lemma map_filter_filter:
  "(\<And>x. x \<in> set xs \<Longrightarrow> \<not> P x \<Longrightarrow> g x = None) \<Longrightarrow>
     List.map_filter g (filter P xs) = List.map_filter g xs"
  by (induction xs) (auto split: option.splits)

lemma map_of_filter_tracked:
  "tracked f \<Longrightarrow> map_of (filter (\<lambda>x. tracked (fst x)) al) f = map_of al f"
  by (induction al) auto

lemma oldChange_filter:
  "oldChange (filter (\<lambda>x. tracked (fst x)) newVersion) diff fv = oldChange newVersion diff fv"
  by (cases fv) (simp add: oldChange_def map_of_filter_tracked)

lemma newChange_filter:
  "newChange (filter (\<lambda>x. tracked (fst x)) oldVersion) fv = newChange oldVersion fv"
  by (cases fv) (simp add: newChange_def map_of_filter_tracked)

lemma diffChanges_tracked_part:
  "diffChanges oldVersion newVersion diff =
     diffChanges (filter (\<lambda>x. tracked (fst x)) oldVersion)
       (filter (\<lambda>x. tracked (fst x)) newVersion) diff"
proof -
  have "List.map_filter (oldChange newVersion diff) (filter (\<lambda>x. tracked (fst x)) oldVersion) =
        List.map_filter (oldChange newVersion diff) oldVersion"
    by (rule map_filter_filter) (auto simp: oldChange_def)
  moreover have "List.map_filter (newChange oldVersion) (filter (\<lambda>x. tracked (fst x)) newVersion) =
        (List.map_filter (newChange oldVersion) newVersion :: 'a FileChange list)"
    by (rule map_filter_filter) (auto simp: newChange_def)
  ultimately show ?thesis
    by (simp add: diffChanges_def oldChange_filter[abs_def] newChange_filter[abs_def])
qed

lemma filter_tracked_update:
  "\<not> tracked f \<Longrightarrow>
     filter (\<lambda>x. tracked (fst x)) (AList.update f v al) = filter (\<lambda>x. tracked (fst x)) al"
  by (induction al) auto

lemma filter_tracked_delete:
  "\<not> tracked f \<Longrightarrow>
     filter (\<lambda>x. tracked (fst x)) (AList.delete f al) = filter (\<lambda>x. tracked (fst x)) al"
  by (induction al) auto

lemma diffChanges_untracked:
  assumes "\<not> tracked f"
  shows "diffChanges oldVersion (AList.update f v newVersion) diff = diffChanges oldVersion newVersion diff"
    and "diffChanges oldVersion (AList.delete f newVersion) diff = diffChanges oldVersion newVersion diff"
    and "diffChanges (AList.update f v oldVersion) newVersion diff = diffChanges oldVersion newVersion diff"
    and "diffChanges (AList.delete f oldVersion) newVersion diff = diffChanges oldVersion newVersion diff"
proof -
  show "diffChanges oldVersion (AList.update f v newVersion) diff = diffChanges oldVersion newVersion diff"
    using diffChanges_tracked_part[of oldVersion "AList.update f v newVersion" diff]
      diffChanges_tracked_part[of oldVersion newVersion diff] assms
    by (simp add: filter_tracked_update)
  show "diffChanges oldVersion (AList.delete f newVersion) diff = diffChanges oldVersion newVersion diff"
    using diffChanges_tracked_part[of oldVersion "AList.delete f newVersion" diff]
      diffChanges_tracked_part[of oldVersion newVersion diff] assms
    by (simp add: filter_tracked_delete)
  show "diffChanges (AList.update f v oldVersion) newVersion diff = diffChanges oldVersion newVersion diff"
    using diffChanges_tracked_part[of "AList.update f v oldVersion" newVersion diff]
      diffChanges_tracked_part[of oldVersion newVersion diff] assms
    by (simp add: filter_tracked_update)
  show "diffChanges (AList.delete f oldVersion) newVersion diff = diffChanges oldVersion newVersion diff"
    using diffChanges_tracked_part[of "AList.delete f oldVersion" newVersion diff]
      diffChanges_tracked_part[of oldVersion newVersion diff] assms
    by (simp add: filter_tracked_delete)
qed

lemma diffChanges_agree:
  assumes d: "distinct (map fst oldVersion)"
    and a: "\<forall>f. tracked f \<longrightarrow> map_of oldVersion f = map_of newVersion f"
  shows "diffChanges oldVersion newVersion diff = []"
proof -
  have "List.map_filter (oldChange newVersion diff) oldVersion = []"
  proof (rule map_filter_empty)
    fix x assume x: "x \<in> set oldVersion"
    obtain f v where fv: "x = (f, v)" by (cases x)
    then have "map_of oldVersion f = Some v" using d x by simp
    then show "oldChange newVersion diff x = None"
      using a fv by (auto simp: oldChange_def)
  qed
  moreover have "List.map_filter (newChange oldVersion) newVersion = ([] :: 'a FileChange list)"
  proof (rule map_filter_empty)
    fix x assume x: "x \<in> set newVersion"
    obtain f w where fw: "x = (f, w)" by (cases x)
    then obtain w' where "map_of newVersion f = Some w'"
      using x weak_map_of_SomeI by fastforce
    then show "newChange oldVersion x = (None :: 'a FileChange option)"
      using a fw by (auto simp: newChange_def split: option.splits)
  qed
  ultimately show ?thesis by (simp add: diffChanges_def)
qed

text \<open>
  Claim C9. Every change of a record that \<open>diffScriptText\<close> returns names a tracked file
  (a name ending in \<open>.ts\<close>, \<open>.jres\<close>, \<open>.py\<close> or \<open>.blocks\<close>, or the name \<open>pxt.json\<close>).
  Setting (adding or editing) or deleting a file with an untracked name, in the new or in
  the old snapshot, does not change the result. If the two snapshots agree on every
  tracked file (only untracked files differ), the result is \<open>undefined\<close>.
\<close>

theorem diffScriptText_tracked_only:
  "(\<forall>R. diffScriptText oldVersion newVersion diff now target = Some R \<longrightarrow>
        (\<forall>c \<in> set (changes R). tracked (filename c))) \<and>
   (\<forall>f v. \<not> tracked f \<longrightarrow>
        diffScriptText oldVersion (AList.update f v newVersion) diff now target =
          diffScriptText oldVersion newVersion diff now target \<and>
        diffScriptText oldVersion (AList.delete f newVersion) diff now target =
          diffScriptText oldVersion newVersion diff now target \<and>
        diffScriptText (AList.update f v oldVersion) newVersion diff now target =
          diffScriptText oldVersion newVersion diff now target \<and>
        diffScriptText (AList.delete f oldVersion) newVersion diff now target =
          diffScriptText oldVersion newVersion diff now target) \<and>
   (distinct (map fst oldVersion) \<and>
      (\<forall>f. tracked f \<longrightarrow> map_of oldVersion f = map_of newVersion f) \<longrightarrow>
        diffScriptText oldVersion newVersion diff now target = None)"
proof (intro conjI allI impI)
  fix R
  assume "diffScriptText oldVersion newVersion diff now target = Some R"
  then show "\<forall>c \<in> set (changes R). tracked (filename c)"
    using diffScriptText_Some diffChanges_tracked by fastforce
next
  fix f v assume "\<not> tracked f"
  then show "diffScriptText oldVersion (AList.update f v newVersion) diff now target =
          diffScriptText oldVersion newVersion diff now target"
    by (simp add: diffScriptText_def diffChanges_untracked)
next
  fix f v assume "\<not> tracked f"
  then show "diffScriptText oldVersion (AList.delete f newVersion) diff now target =
          diffScriptText oldVersion newVersion diff now target"
    by (simp add: diffScriptText_def diffChanges_untracked)
next
  fix f v assume "\<not> tracked f"
  then show "diffScriptText (AList.update f v oldVersion) newVersion diff now target =
          diffScriptText oldVersion newVersion diff now target"
    by (simp add: diffScriptText_def diffChanges_untracked)
next
  fix f v assume "\<not> tracked f"
  then show "diffScriptText (AList.delete f oldVersion) newVersion diff now target =
          diffScriptText oldVersion newVersion diff now target"
    by (simp add: diffScriptText_def diffChanges_untracked)
next
  assume "distinct (map fst oldVersion) \<and>
      (\<forall>f. tracked f \<longrightarrow> map_of oldVersion f = map_of newVersion f)"
  then show "diffScriptText oldVersion newVersion diff now target = None"
    by (simp add: diffScriptText_def diffChanges_agree)
qed

text \<open>
  An instance: the changes of a returned record are tracked, adding \<open>readme.md\<close> changes
  nothing, and two snapshots that differ in \<open>notes.txt\<close> and \<open>readme.md\<close> only have no diff.
\<close>

theorem diffScriptText_tracked_only_witness:
  "list_all (\<lambda>c. tracked (filename c))
      [Edited ''a.ts'' ''x'', Removed ''b.ts'' ''y'', Added ''c.ts'' ''z'']
   \<and> diffScriptText [(''a.ts'', ''x''), (''b.ts'', ''y''), (''notes.txt'', ''n'')]
        (AList.update ''readme.md'' ''r''
           [(''a.ts'', ''x2''), (''c.ts'', ''z''), (''notes.txt'', ''m'')]) fullDiff 0 ''''
      = diffScriptText [(''a.ts'', ''x''), (''b.ts'', ''y''), (''notes.txt'', ''n'')]
          [(''a.ts'', ''x2''), (''c.ts'', ''z''), (''notes.txt'', ''m'')] fullDiff 0 ''''
   \<and> diffScriptText [(''a.ts'', ''x''), (''notes.txt'', ''n'')]
        [(''a.ts'', ''x''), (''readme.md'', ''r'')] fullDiff 0 '''' = None"
proof -
  have r: "diffScriptText [(''a.ts'', ''x''), (''b.ts'', ''y''), (''notes.txt'', ''n'')]
      [(''a.ts'', ''x2''), (''c.ts'', ''z''), (''notes.txt'', ''m'')] fullDiff 0 ''''
    = Some \<lparr>timestamp = 0, editorVersion = '''',
         changes = [Edited ''a.ts'' ''x'', Removed ''b.ts'' ''y'', Added ''c.ts'' ''z'']\<rparr>"
    by (simp add: run_defs)
  have u: "\<not> tracked ''readme.md''"
    by (simp add: tracked_def endsWith_def)
  have agree: "distinct (map fst [(''a.ts'', ''x''), (''notes.txt'', ''n'')]) \<and>
      (\<forall>f. tracked f \<longrightarrow> map_of [(''a.ts'', ''x''), (''notes.txt'', ''n'')] f =
          map_of [(''a.ts'', ''x''), (''readme.md'', ''r'')] f)"
    by (auto simp: tracked_def endsWith_def)
  note a = diffScriptText_tracked_only[of "[(''a.ts'', ''x''), (''b.ts'', ''y''), (''notes.txt'', ''n'')]"
      "[(''a.ts'', ''x2''), (''c.ts'', ''z''), (''notes.txt'', ''m'')]" fullDiff 0 "''''"]
  note b = diffScriptText_tracked_only[of "[(''a.ts'', ''x''), (''notes.txt'', ''n'')]"
      "[(''a.ts'', ''x''), (''readme.md'', ''r'')]" fullDiff 0 "''''"]
  have 1: "list_all (\<lambda>c. tracked (filename c))
      [Edited ''a.ts'' ''x'', Removed ''b.ts'' ''y'', Added ''c.ts'' ''z'']"
    using conjunct1[OF a] r by (simp add: list_all_iff)
  have 2: "diffScriptText [(''a.ts'', ''x''), (''b.ts'', ''y''), (''notes.txt'', ''n'')]
        (AList.update ''readme.md'' ''r''
           [(''a.ts'', ''x2''), (''c.ts'', ''z''), (''notes.txt'', ''m'')]) fullDiff 0 ''''
      = diffScriptText [(''a.ts'', ''x''), (''b.ts'', ''y''), (''notes.txt'', ''n'')]
          [(''a.ts'', ''x2''), (''c.ts'', ''z''), (''notes.txt'', ''m'')] fullDiff 0 ''''"
    using conjunct1[OF conjunct2[OF a]] u by blast
  have 3: "diffScriptText [(''a.ts'', ''x''), (''notes.txt'', ''n'')]
        [(''a.ts'', ''x''), (''readme.md'', ''r'')] fullDiff 0 '''' = None"
    using conjunct2[OF conjunct2[OF b]] agree by blast
  from 1 2 3 show ?thesis by (intro conjI)
qed

section \<open>Logs that are already coarse\<close>

lemma step_singleton_total:
  assumes "case group s of None \<Rightarrow> True | Some g \<Rightarrow> lastTimeIndex g = Suc i"
  shows "\<exists>s'. step h iv mn mx d p now tg i s = Inr s'"
  using assms
  by (auto simp: step_def flush_def Let_def split: option.splits)

lemma step_unchanged:
  assumes st: "step h iv mn mx d p now tg i s = Inr s'"
    and g: "grp_ok h mn mx (Suc i) s"
    and i: "i < length h"
    and srt: "sorted (map timestamp h)"
    and gap: "Suc i < length h \<Longrightarrow> iv < timestamp (h ! Suc i) - timestamp (h ! i)"
    and inv: "case group s of None \<Rightarrow> newHistory s = drop (Suc i) h
       | Some g \<Rightarrow> lastTimeIndex g = Suc i \<and> newHistory s = drop (Suc (Suc i)) h"
  shows "case group s' of None \<Rightarrow> newHistory s' = drop i h
       | Some g \<Rightarrow> lastTimeIndex g = i \<and> newHistory s' = drop (Suc i) h"
proof -
  have d: "drop i h = h ! i # drop (Suc i) h"
    using i by (simp add: Cons_nth_drop_Suc)
  have d': "Suc i < length h \<Longrightarrow> drop (Suc i) h = h ! Suc i # drop (Suc (Suc i)) h"
    by (simp add: Cons_nth_drop_Suc)
  from st g show ?thesis
  proof (cases rule: step_cases)
    case above
    have "group s = None"
    proof (cases "group s")
      case (Some g0)
      then have "timestamp (h ! i) \<le> mx"
        using g sorted_nth_mono[OF srt, of i "lastTimeIndex g0"] by (auto simp: grp_ok_def)
      with above(1) show ?thesis by simp
    qed simp
    then show ?thesis using above inv d by simp
  next
    case below_none
    then show ?thesis using inv d by simp
  next
    case (below_some g0 X)
    then show ?thesis using inv d d' g by (simp add: grp_ok_def)
  next
    case opens
    then show ?thesis using inv by simp
  next
    case (flushes g0 X)
    then show ?thesis using inv d' g by (simp add: grp_ok_def)
  next
    case (absorbs g0)
    then show ?thesis using inv gap g by (simp add: grp_ok_def)
  qed
qed

text \<open>
  Claim C1. For a non-empty log, sorted by time, in which every entry is more than
  \<open>interval\<close> later than the entry before it, \<open>collapseHistory\<close> returns the log itself:
  every group is a single entry and is put back as it is, with its own changes, and no
  diff is synthesized. This holds for every \<open>minTime\<close> and \<open>maxTime\<close>, in particular for
  \<open>minTime = 0\<close> and \<open>maxTime\<close> the time of the last entry, and for every current text.
  The times of the log are at most \<open>2 ^ 52\<close> in magnitude, the range in which the
  subtraction of the source is exact and its test \<open>lastTime - entry.timestamp > interval\<close>
  is the comparison of the exact gap with the interval. Outside that range the source
  rounds the gap (for the times \<open>-1\<close> and \<open>2 ^ 53\<close> and the interval \<open>2 ^ 53\<close> the gap
  \<open>2 ^ 53 + 1\<close> is rounded to \<open>2 ^ 53\<close> and the test is false), and the statement says
  nothing.
\<close>

theorem collapseHistory_spaced_log_unchanged:
  assumes hne: "history \<noteq> []"
    and srt: "sorted (map timestamp history)"
    and gap: "\<forall>k. Suc k < length history \<longrightarrow>
        interval options < timestamp (history ! Suc k) - timestamp (history ! k)"
    and rng: "\<forall>e \<in> set history. \<bar>timestamp e\<bar> \<le> 2 ^ 52"
  shows "collapseHistory history text options diff patch now target = Inr history"
proof -
  obtain mx where m: "maxTimeOf history options = Inr mx"
    using maxTimeOf_nonempty[OF hne] by blast
  let ?iv = "interval options"
  let ?mn = "minTimeOf options"
  let ?P = "\<lambda>n s. grp_ok history ?mn mx n s \<and>
      (case group s of None \<Rightarrow> newHistory s = drop n history
       | Some g \<Rightarrow> lastTimeIndex g = n \<and> newHistory s = drop (Suc n) history)"
  have "\<exists>st. loop history ?iv ?mn mx diff patch now target (length history)
          \<lparr>newHistory = [], current = text, group = None\<rparr> = Inr st \<and> ?P 0 st"
  proof (rule loop_total[where P = ?P])
    show "?P (length history) \<lparr>newHistory = [], current = text, group = None\<rparr>"
      by (simp add: grp_ok_def)
  next
    fix i s
    assume i: "i < length history" and P: "?P (Suc i) s"
    then obtain s' where s': "step history ?iv ?mn mx diff patch now target i s = Inr s'"
      using step_singleton_total[where s = s and i = i and h = history and iv = "?iv" and mn = "?mn"
          and mx = mx and d = diff and p = patch and now = now and tg = target]
      by (auto split: option.splits)
    have "?P i s'"
      using step_grp_ok[OF s' i] step_unchanged[OF s' _ i srt] P gap by simp
    with s' show "\<exists>s'. step history ?iv ?mn mx diff patch now target i s = Inr s' \<and> ?P i s'"
      by blast
  qed
  then obtain st where l: "loop history ?iv ?mn mx diff patch now target (length history)
          \<lparr>newHistory = [], current = text, group = None\<rparr> = Inr st" and P: "?P 0 st"
    by blast
  have h0: "history = history ! 0 # drop (Suc 0) history"
    using hne by (cases history) simp_all
  show ?thesis
  proof (cases "group st")
    case None
    then show ?thesis using m l P by (simp add: collapseHistory_def)
  next
    case (Some g)
    then show ?thesis using m l P h0 by (simp add: collapseHistory_def flush_def)
  qed
qed

text \<open>An instance with \<open>minTime = 0\<close> and \<open>maxTime\<close> the time of the last entry.\<close>

theorem collapseHistory_spaced_log_unchanged_witness:
  "collapseHistory [edit 0 ''a'', edit 100 ''b'', edit 200 ''c''] [(''a.ts'', ''d'')]
      \<lparr>interval = 50, minTime = Some 0, maxTime = Some 200\<rparr> fullDiff fullPatch 0 ''''
   = Inr [edit 0 ''a'', edit 100 ''b'', edit 200 ''c'']"
proof -
  have "\<forall>k. Suc k < length [edit 0 ''a'', edit 100 ''b'', edit 200 ''c''] \<longrightarrow>
      interval \<lparr>interval = 50, minTime = Some 0, maxTime = Some 200\<rparr>
        < timestamp ([edit 0 ''a'', edit 100 ''b'', edit 200 ''c''] ! Suc k)
          - timestamp ([edit 0 ''a'', edit 100 ''b'', edit 200 ''c''] ! k)"
    by (auto simp: edit_def less_Suc_eq)
  moreover have "sorted (map timestamp [edit 0 ''a'', edit 100 ''b'', edit 200 ''c''])"
    by (simp add: edit_def)
  moreover have "\<forall>e \<in> set [edit 0 ''a'', edit 100 ''b'', edit 200 ''c'']. \<bar>timestamp e\<bar> \<le> 2 ^ 52"
    by (simp add: edit_def)
  ultimately show ?thesis
    by (intro collapseHistory_spaced_log_unchanged) simp_all
qed

section \<open>Entries outside the window\<close>

lemma step_outside:
  assumes "step h iv mn mx d p now tg i s = Inr s'"
    and "i < length h"
    and "grp_ok h mn mx (Suc i) s"
    and "filter (\<lambda>e. mx < timestamp e \<or> timestamp e < mn) (newHistory s) =
         filter (\<lambda>e. mx < timestamp e \<or> timestamp e < mn) (drop (Suc i) h)"
  shows "filter (\<lambda>e. mx < timestamp e \<or> timestamp e < mn) (newHistory s') =
         filter (\<lambda>e. mx < timestamp e \<or> timestamp e < mn) (drop i h)"
proof -
  have d: "drop i h = h ! i # drop (Suc i) h"
    using assms(2) by (simp add: Cons_nth_drop_Suc)
  show ?thesis
    using assms(1,3,4) unfolding d
    by (auto simp: step_def grp_ok_def Let_def split: if_splits option.splits sum.splits
          elim!: flush_Inr)
qed

text \<open>
  Claim C3. Whenever \<open>collapseHistory\<close> returns a log for a non-empty log, the entries of
  the result whose time is above \<open>maxTime\<close> or below \<open>minTime\<close> (after defaulting) are
  exactly the entries of the input with such a time, each one the original entry with its
  original changes, in the original order and number. No entry that the function
  synthesizes and no group it emits lies outside the window, so none of them is merged.
  The log need not be sorted for this. (The call raises instead of returning only in the
  situation of claim C10.)
\<close>

theorem collapseHistory_outside_window_verbatim:
  assumes res: "collapseHistory history text options diff patch now target = Inr out"
    and hne: "history \<noteq> []"
    and mx: "maxT = (case maxTime options of None \<Rightarrow> timestamp (last history) | Some m \<Rightarrow> m)"
    and mn: "minT = (case minTime options of None \<Rightarrow> 0 | Some m \<Rightarrow> m)"
  shows "filter (\<lambda>e. maxT < timestamp e \<or> timestamp e < minT) out =
         filter (\<lambda>e. maxT < timestamp e \<or> timestamp e < minT) history"
proof -
  let ?out = "\<lambda>e::'a HistoryEntry. maxT < timestamp e \<or> timestamp e < minT"
  let ?P = "\<lambda>n s. n \<le> length history \<and> grp_ok history minT maxT n s \<and>
               filter ?out (newHistory s) = filter ?out (drop n history)"
  from res obtain mx' st where m: "maxTimeOf history options = Inr mx'"
    and l: "loop history (interval options) (minTimeOf options) mx' diff patch now target
              (length history) \<lparr>newHistory = [], current = text, group = None\<rparr> = Inr st"
    and f: "(case group st of
               None \<Rightarrow> Inr (newHistory st)
             | Some g \<Rightarrow> flush diff now target (lastTimeIndex g \<noteq> 0) (history ! 0) g
                           (current st) (newHistory st)) = Inr out"
    by (rule collapseHistory_Inr)
  have mx': "mx' = maxT"
    using m maxTimeOf_nonempty[OF hne, of options] mx by simp
  have mn': "minTimeOf options = minT"
    by (simp add: minTimeOf_def mn)
  have "?P 0 st"
  proof (rule loop_invariant[where P = ?P, OF l[unfolded mx' mn']])
    show "?P (length history) \<lparr>newHistory = [], current = text, group = None\<rparr>"
      by (simp add: grp_ok_def)
  next
    fix i s s'
    assume "i < length history" "?P (Suc i) s"
      "step history (interval options) minT maxT diff patch now target i s = Inr s'"
    then show "?P i s'"
      using step_grp_ok[of history "interval options" minT maxT diff patch now target i s s']
        step_outside[of history "interval options" minT maxT diff patch now target i s s']
      by simp
  qed
  then show ?thesis
    using final_flush[OF f, of minT maxT] by auto
qed

text \<open>
  An instance: with \<open>maxTime = 100\<close> the entries at 10 and 20 are merged, the entry at -5
  (below the default \<open>minTime\<close> 0) and the entry at 400 are kept as they are.
\<close>

theorem collapseHistory_outside_window_verbatim_witness:
  "collapseHistory [edit (-5) ''a'', edit 10 ''b'', edit 20 ''c'', edit 400 ''d'']
      [(''a.ts'', ''e'')] \<lparr>interval = 50, minTime = None, maxTime = Some 100\<rparr>
      fullDiff fullPatch 0 ''''
   = Inr [edit (-5) ''a'',
          \<lparr>timestamp = 20, editorVersion = ''1.0'', changes = [Edited ''a.ts'' ''b'']\<rparr>,
          edit 400 ''d'']
   \<and> filter (\<lambda>e. 100 < timestamp e \<or> timestamp e < 0)
        [edit (-5) ''a'',
         \<lparr>timestamp = 20, editorVersion = ''1.0'', changes = [Edited ''a.ts'' ''b'']\<rparr>,
         edit 400 ''d'']
     = filter (\<lambda>e. 100 < timestamp e \<or> timestamp e < 0)
        [edit (-5) ''a'', edit 10 ''b'', edit 20 ''c'', edit 400 ''d'']"
proof -
  have r: "collapseHistory [edit (-5) ''a'', edit 10 ''b'', edit 20 ''c'', edit 400 ''d'']
      [(''a.ts'', ''e'')] \<lparr>interval = 50, minTime = None, maxTime = Some 100\<rparr>
      fullDiff fullPatch 0 ''''
   = Inr [edit (-5) ''a'',
          \<lparr>timestamp = 20, editorVersion = ''1.0'', changes = [Edited ''a.ts'' ''b'']\<rparr>,
          edit 400 ''d'']"
    by (simp add: run_defs)
  from collapseHistory_outside_window_verbatim[OF r, of 100 0]
  have "filter (\<lambda>e. 100 < timestamp e \<or> timestamp e < 0)
        [edit (-5) ''a'',
         \<lparr>timestamp = 20, editorVersion = ''1.0'', changes = [Edited ''a.ts'' ''b'']\<rparr>,
         edit 400 ''d'']
     = filter (\<lambda>e. 100 < timestamp e \<or> timestamp e < 0)
        [edit (-5) ''a'', edit 10 ''b'', edit 20 ''c'', edit 400 ''d'']"
    by simp
  with r show ?thesis
    by (rule conjI)
qed

section \<open>Buckets\<close>

lemma successively_nth:
  "successively P xs \<Longrightarrow> Suc k < length xs \<Longrightarrow> P (xs ! k) (xs ! Suc k)"
proof (induction P xs arbitrary: k rule: successively.induct)
  case (3 P x y xs)
  then show ?case by (cases k) auto
qed simp_all

lemma step_apart:
  assumes st: "step h iv mn mx d p now tg i s = Inr s'"
    and g: "grp_ok h mn mx (Suc i) s"
    and inv: "successively (apart iv mn mx) (newHistory s)" "head_apart iv mn mx s"
  shows "successively (apart iv mn mx) (newHistory s') \<and> head_apart iv mn mx s'"
  using st g
proof (cases rule: step_cases)
  case above
  then show ?thesis using inv
    by (auto simp: successively_Cons apart_def head_apart_def inWindow_def split: option.splits)
next
  case below_none
  then show ?thesis using inv
    by (auto simp: successively_Cons apart_def head_apart_def inWindow_def)
next
  case (below_some g0 X)
  then show ?thesis using inv
    by (auto simp: successively_Cons apart_def head_apart_def inWindow_def split: list.splits)
next
  case opens
  then show ?thesis using inv
    by (auto simp: head_apart_def inWindow_def split: list.splits)
next
  case (flushes g0 X)
  then show ?thesis using inv
    by (auto simp: successively_Cons apart_def head_apart_def inWindow_def split: list.splits)
next
  case (absorbs g0)
  then show ?thesis using inv
    by (auto simp: head_apart_def split: list.splits)
qed

text \<open>
  Claim C4. Whenever \<open>collapseHistory\<close> returns a log for a non-empty log, two consecutive
  entries of the result that both lie in the window \<open>[minTime, maxTime]\<close> (after
  defaulting) are more than \<open>interval\<close> apart; in particular their times do not differ by
  less than \<open>interval\<close>. The code needs no exception at the window edges, and neither a
  sorted log nor a positive \<open>interval\<close>.
\<close>

theorem collapseHistory_bucket_bound:
  assumes res: "collapseHistory history text options diff patch now target = Inr out"
    and hne: "history \<noteq> []"
    and mx: "maxT = (case maxTime options of None \<Rightarrow> timestamp (last history) | Some m \<Rightarrow> m)"
    and mn: "minT = (case minTime options of None \<Rightarrow> 0 | Some m \<Rightarrow> m)"
    and k: "Suc k < length out"
    and w: "minT \<le> timestamp (out ! k)" "timestamp (out ! k) \<le> maxT"
       "minT \<le> timestamp (out ! Suc k)" "timestamp (out ! Suc k) \<le> maxT"
  shows "interval options < timestamp (out ! Suc k) - timestamp (out ! k) \<and>
         \<not> \<bar>timestamp (out ! Suc k) - timestamp (out ! k)\<bar> < interval options"
proof -
  from res obtain mx' st where m: "maxTimeOf history options = Inr mx'"
    and l: "loop history (interval options) (minTimeOf options) mx' diff patch now target
              (length history) \<lparr>newHistory = [], current = text, group = None\<rparr> = Inr st"
    and f: "(case group st of
               None \<Rightarrow> Inr (newHistory st)
             | Some g \<Rightarrow> flush diff now target (lastTimeIndex g \<noteq> 0) (history ! 0) g
                           (current st) (newHistory st)) = Inr out"
    by (rule collapseHistory_Inr)
  have mx': "mx' = maxT"
    using m maxTimeOf_nonempty[OF hne, of options] mx by simp
  have mn': "minTimeOf options = minT"
    by (simp add: minTimeOf_def mn)
  let ?iv = "interval options"
  let ?P = "\<lambda>n s. grp_ok history minT maxT n s \<and>
      successively (apart ?iv minT maxT) (newHistory s) \<and> head_apart ?iv minT maxT s"
  have P: "?P 0 st"
  proof (rule loop_invariant[where P = ?P, OF l[unfolded mx' mn']])
    show "?P (length history) \<lparr>newHistory = [], current = text, group = None\<rparr>"
      by (simp add: grp_ok_def head_apart_def)
  next
    fix i s s'
    assume "i < length history" "?P (Suc i) s"
      "step history ?iv minT maxT diff patch now target i s = Inr s'"
    then show "?P i s'"
      using step_grp_ok[of history ?iv minT maxT diff patch now target i s s']
        step_apart[of history ?iv minT maxT diff patch now target i s s']
      by simp
  qed
  have "successively (apart ?iv minT maxT) out"
    using final_flush[OF f, of minT maxT] P
    by (auto simp: successively_Cons head_apart_def apart_def inWindow_def split: list.splits)
  from successively_nth[OF this k] w
  have "?iv < timestamp (out ! Suc k) - timestamp (out ! k)"
    by (simp add: apart_def inWindow_def)
  then show ?thesis
    by simp
qed

text \<open>
  An instance: the first two entries of the result for the log at times 0, 100, 110, 300,
  305 are 110 apart.
\<close>

theorem collapseHistory_bucket_bound_witness:
  "collapseHistory [edit 0 ''c0'', edit 100 ''c1'', edit 110 ''c2'', edit 300 ''c3'', edit 305 ''c4'']
      [(''a.ts'', ''c5'')] \<lparr>interval = 50, minTime = None, maxTime = None\<rparr>
      fullDiff fullPatch 0 ''''
   = Inr [edit 0 ''c0'',
          \<lparr>timestamp = 110, editorVersion = ''1.0'', changes = [Edited ''a.ts'' ''c1'']\<rparr>,
          \<lparr>timestamp = 305, editorVersion = ''1.0'', changes = [Edited ''a.ts'' ''c3'']\<rparr>]
   \<and> 50 < timestamp \<lparr>timestamp = 110, editorVersion = ''1.0'',
                        changes = [Edited ''a.ts'' ''c1'']\<rparr>
            - timestamp (edit 0 ''c0'')"
proof -
  have r: "collapseHistory [edit 0 ''c0'', edit 100 ''c1'', edit 110 ''c2'', edit 300 ''c3'', edit 305 ''c4'']
      [(''a.ts'', ''c5'')] \<lparr>interval = 50, minTime = None, maxTime = None\<rparr>
      fullDiff fullPatch 0 ''''
   = Inr [edit 0 ''c0'',
          \<lparr>timestamp = 110, editorVersion = ''1.0'', changes = [Edited ''a.ts'' ''c1'']\<rparr>,
          \<lparr>timestamp = 305, editorVersion = ''1.0'', changes = [Edited ''a.ts'' ''c3'']\<rparr>]"
    by (simp add: run_defs)
  from collapseHistory_bucket_bound[OF r, of 305 0 0]
  have "50 < timestamp \<lparr>timestamp = 110, editorVersion = ''1.0'',
                        changes = [Edited ''a.ts'' ''c1'']\<rparr>
            - timestamp (edit 0 ''c0'')"
    by (simp add: edit_def)
  with r show ?thesis by (rule conjI)
qed

section \<open>Order of the result\<close>

lemma step_sorted:
  assumes st: "step h iv mn mx d p now tg i s = Inr s'"
    and g: "grp_ok h mn mx (Suc i) s"
    and i: "i < length h"
    and srt: "sorted (map timestamp h)"
    and inv: "sorted (map timestamp (newHistory s))"
      "\<forall>e \<in> set (newHistory s). \<forall>k < bound s (Suc i). timestamp (h ! k) \<le> timestamp e"
  shows "sorted (map timestamp (newHistory s')) \<and>
      (\<forall>e \<in> set (newHistory s'). \<forall>k < bound s' i. timestamp (h ! k) \<le> timestamp e)"
proof -
  have mono: "\<And>a b. a \<le> b \<Longrightarrow> b < length h \<Longrightarrow> timestamp (h ! a) \<le> timestamp (h ! b)"
    using sorted_nth_mono[OF srt] by simp
  have lei: "\<And>k. k < i \<Longrightarrow> timestamp (h ! k) \<le> timestamp (h ! i)"
    using mono[of _ i] i by simp
  from st g show ?thesis
  proof (cases rule: step_cases)
    case above
    have "group s = None"
    proof (cases "group s")
      case (Some g0)
      then have "timestamp (h ! i) \<le> mx"
        using g mono[of i "lastTimeIndex g0"] by (auto simp: grp_ok_def)
      with above(1) show ?thesis by simp
    qed simp
    then show ?thesis using above inv lei by (auto simp: bound_def)
  next
    case below_none
    then show ?thesis using inv lei by (auto simp: bound_def)
  next
    case (below_some g0 X)
    then have g0: "Suc i \<le> lastTimeIndex g0" "lastTimeIndex g0 < length h"
      "lastTime g0 = timestamp (h ! lastTimeIndex g0)"
      using g by (auto simp: grp_ok_def)
    have a: "timestamp (h ! i) \<le> lastTime g0" using mono[of i "lastTimeIndex g0"] g0 by simp
    have b: "\<forall>e \<in> set (newHistory s). lastTime g0 \<le> timestamp e"
      using inv(2) below_some(3) g0(3) by (auto simp: bound_def)
    show ?thesis using below_some inv(1) a b lei by (fastforce simp: bound_def)
  next
    case opens
    then show ?thesis using inv by (auto simp: bound_def)
  next
    case (flushes g0 X)
    then have g0: "Suc i \<le> lastTimeIndex g0" "lastTimeIndex g0 < length h"
      "lastTime g0 = timestamp (h ! lastTimeIndex g0)"
      using g by (auto simp: grp_ok_def)
    have a: "\<And>k. k \<le> i \<Longrightarrow> timestamp (h ! k) \<le> lastTime g0"
      using mono[of _ "lastTimeIndex g0"] g0 by simp
    have b: "\<forall>e \<in> set (newHistory s). lastTime g0 \<le> timestamp e"
      using inv(2) flushes(3) g0(3) by (auto simp: bound_def)
    have c: "\<forall>e \<in> set (newHistory s). \<forall>k \<le> i. timestamp (h ! k) \<le> timestamp e"
      using a b by fastforce
    show ?thesis using flushes(5,6,7) inv(1) a b c by (auto simp: bound_def)
  next
    case (absorbs g0)
    then show ?thesis using inv by (auto simp: bound_def)
  qed
qed

text \<open>
  Claim C8. Whenever \<open>collapseHistory\<close> returns a log for a log whose times are
  non-decreasing, the times of the result are non-decreasing as well; a synthesized entry
  carries the time of the newest entry of its group.
\<close>

theorem collapseHistory_sorted:
  assumes res: "collapseHistory history text options diff patch now target = Inr out"
    and srt: "sorted (map timestamp history)"
  shows "sorted (map timestamp out)"
proof -
  from res obtain mx st where m: "maxTimeOf history options = Inr mx"
    and l: "loop history (interval options) (minTimeOf options) mx diff patch now target
              (length history) \<lparr>newHistory = [], current = text, group = None\<rparr> = Inr st"
    and f: "(case group st of
               None \<Rightarrow> Inr (newHistory st)
             | Some g \<Rightarrow> flush diff now target (lastTimeIndex g \<noteq> 0) (history ! 0) g
                           (current st) (newHistory st)) = Inr out"
    by (rule collapseHistory_Inr)
  let ?mn = "minTimeOf options"
  let ?P = "\<lambda>n s. grp_ok history ?mn mx n s \<and> sorted (map timestamp (newHistory s)) \<and>
      (\<forall>e \<in> set (newHistory s). \<forall>k < bound s n. timestamp (history ! k) \<le> timestamp e)"
  have P: "?P 0 st"
  proof (rule loop_invariant[where P = ?P, OF l])
    show "?P (length history) \<lparr>newHistory = [], current = text, group = None\<rparr>"
      by (simp add: grp_ok_def)
  next
    fix i s s'
    assume "i < length history" "?P (Suc i) s"
      "step history (interval options) ?mn mx diff patch now target i s = Inr s'"
    then show "?P i s'"
      using step_grp_ok[of history "interval options" ?mn mx diff patch now target i s s']
        step_sorted[of history "interval options" ?mn mx diff patch now target i s s', OF _ _ _ srt]
      by simp
  qed
  from final_flush[OF f, of ?mn mx] P
  consider "out = newHistory st" | g X where "group st = Some g" "out = X # newHistory st"
      "timestamp X = lastTime g"
    by auto
  then show ?thesis
  proof cases
    case 1
    then show ?thesis using P by simp
  next
    case 2
    have "lastTime g = timestamp (history ! lastTimeIndex g)"
      using P 2(1) by (simp add: grp_ok_def)
    then have "\<forall>e \<in> set (newHistory st). lastTime g \<le> timestamp e"
      using P 2(1) by (auto simp: bound_def)
    then show ?thesis using 2 P by simp
  qed
qed

text \<open>An instance, in which the entries at 0, 10 and 20 are merged into one at 20.\<close>

theorem collapseHistory_sorted_witness:
  "sorted (map timestamp [edit 0 ''a'', edit 10 ''b'', edit 20 ''c'', edit 100 ''d''])
   \<and> collapseHistory [edit 0 ''a'', edit 10 ''b'', edit 20 ''c'', edit 100 ''d'']
      [(''a.ts'', ''e'')] \<lparr>interval = 50, minTime = None, maxTime = None\<rparr>
      fullDiff fullPatch 0 ''''
   = Inr [\<lparr>timestamp = 20, editorVersion = ''1.0'', changes = [Edited ''a.ts'' ''a'']\<rparr>,
          edit 100 ''d'']
   \<and> sorted (map timestamp
        [\<lparr>timestamp = 20, editorVersion = ''1.0'', changes = [Edited ''a.ts'' ''a'']\<rparr>,
          edit 100 ''d''])"
proof -
  have s: "sorted (map timestamp [edit 0 ''a'', edit 10 ''b'', edit 20 ''c'', edit 100 ''d''])"
    by (simp add: edit_def)
  have r: "collapseHistory [edit 0 ''a'', edit 10 ''b'', edit 20 ''c'', edit 100 ''d'']
      [(''a.ts'', ''e'')] \<lparr>interval = 50, minTime = None, maxTime = None\<rparr>
      fullDiff fullPatch 0 ''''
   = Inr [\<lparr>timestamp = 20, editorVersion = ''1.0'', changes = [Edited ''a.ts'' ''a'']\<rparr>,
          edit 100 ''d'']"
    by (simp add: run_defs)
  from s r collapseHistory_sorted[OF r s] show ?thesis by (intro conjI)
qed

section \<open>The scenario of five entries\<close>

text \<open>
  The scenario of claim C5 on the code: the result has three entries, but the entry at 0
  is the original entry, not a merge of 0 to 110, and the merged entries carry the times
  110 and 305 of the newest entries of their groups: no entry of the result has the
  time 300.
\<close>

theorem collapseHistory_scenario_counterexample:
  "collapseHistory [edit 0 ''c0'', edit 100 ''c1'', edit 110 ''c2'', edit 300 ''c3'', edit 305 ''c4'']
      [(''a.ts'', ''c5'')] \<lparr>interval = 50, minTime = Some 0, maxTime = Some 305\<rparr>
      fullDiff fullPatch 0 ''''
   = Inr [edit 0 ''c0'',
          \<lparr>timestamp = 110, editorVersion = ''1.0'', changes = [Edited ''a.ts'' ''c1'']\<rparr>,
          \<lparr>timestamp = 305, editorVersion = ''1.0'', changes = [Edited ''a.ts'' ''c3'']\<rparr>]
   \<and> 300 \<notin> set (map timestamp
        [edit 0 ''c0'',
         \<lparr>timestamp = 110, editorVersion = ''1.0'', changes = [Edited ''a.ts'' ''c1'']\<rparr>,
         \<lparr>timestamp = 305, editorVersion = ''1.0'', changes = [Edited ''a.ts'' ''c3'']\<rparr>])"
  by (simp add: run_defs)

text \<open>
  Claim C5, as the code has it. For the log of five edits of \<open>a.ts\<close> at the times 0, 100,
  110, 300 and 305, where \<open>v0\<close>, ..., \<open>v5\<close> are the successive contents of the file and the
  two merged groups have a net change (\<open>v1 \<noteq> v3\<close> and \<open>v3 \<noteq> v5\<close>), \<open>collapseHistory\<close> with
  \<open>interval = 50\<close>, \<open>minTime = 0\<close> and \<open>maxTime = 305\<close> returns exactly three entries: the
  original entry at 0, one entry that merges the entries at 100 and 110 with the time and
  version of the entry at 110, and one that merges the entries at 300 and 305 with the
  time and version of the entry at 305.
\<close>

theorem collapseHistory_scenario:
  assumes rt: "\<forall>a b. patch (diff a b) (Some a) = b"
    and n1: "v1 \<noteq> v3" and n2: "v3 \<noteq> v5"
  shows "collapseHistory
      [\<lparr>timestamp = 0, editorVersion = e0, changes = [Edited ''a.ts'' (diff v1 v0)]\<rparr>,
       \<lparr>timestamp = 100, editorVersion = e1, changes = [Edited ''a.ts'' (diff v2 v1)]\<rparr>,
       \<lparr>timestamp = 110, editorVersion = e2, changes = [Edited ''a.ts'' (diff v3 v2)]\<rparr>,
       \<lparr>timestamp = 300, editorVersion = e3, changes = [Edited ''a.ts'' (diff v4 v3)]\<rparr>,
       \<lparr>timestamp = 305, editorVersion = e4, changes = [Edited ''a.ts'' (diff v5 v4)]\<rparr>]
      [(''a.ts'', v5)] \<lparr>interval = 50, minTime = Some 0, maxTime = Some 305\<rparr>
      diff patch now target
   = Inr [\<lparr>timestamp = 0, editorVersion = e0, changes = [Edited ''a.ts'' (diff v1 v0)]\<rparr>,
          \<lparr>timestamp = 110, editorVersion = e2, changes = [Edited ''a.ts'' (diff v3 v1)]\<rparr>,
          \<lparr>timestamp = 305, editorVersion = e4, changes = [Edited ''a.ts'' (diff v5 v3)]\<rparr>]"
  using assms
  by (simp add: collapseHistory_def maxTimeOf_def minTimeOf_def step_def flush_def
      applyDiff_def diffScriptText_def diffChanges_def oldChange_def
      newChange_def tracked_def endsWith_def)

text \<open>An instance of the amended claim C5.\<close>

theorem collapseHistory_scenario_witness:
  "collapseHistory
      [\<lparr>timestamp = 0, editorVersion = ''1.0'', changes = [Edited ''a.ts'' (fullDiff ''c1'' ''c0'')]\<rparr>,
       \<lparr>timestamp = 100, editorVersion = ''1.1'', changes = [Edited ''a.ts'' (fullDiff ''c2'' ''c1'')]\<rparr>,
       \<lparr>timestamp = 110, editorVersion = ''1.2'', changes = [Edited ''a.ts'' (fullDiff ''c3'' ''c2'')]\<rparr>,
       \<lparr>timestamp = 300, editorVersion = ''1.3'', changes = [Edited ''a.ts'' (fullDiff ''c4'' ''c3'')]\<rparr>,
       \<lparr>timestamp = 305, editorVersion = ''1.4'', changes = [Edited ''a.ts'' (fullDiff ''c5'' ''c4'')]\<rparr>]
      [(''a.ts'', ''c5'')] \<lparr>interval = 50, minTime = Some 0, maxTime = Some 305\<rparr>
      fullDiff fullPatch 7 ''2.0''
   = Inr [\<lparr>timestamp = 0, editorVersion = ''1.0'', changes = [Edited ''a.ts'' (fullDiff ''c1'' ''c0'')]\<rparr>,
          \<lparr>timestamp = 110, editorVersion = ''1.2'', changes = [Edited ''a.ts'' (fullDiff ''c3'' ''c1'')]\<rparr>,
          \<lparr>timestamp = 305, editorVersion = ''1.4'', changes = [Edited ''a.ts'' (fullDiff ''c5'' ''c3'')]\<rparr>]"
  using collapseHistory_scenario[where patch = fullPatch and diff = fullDiff and ?v0.0 = "''c0''"
      and ?v1.0 = "''c1''" and ?v2.0 = "''c2''" and ?v3.0 = "''c3''" and ?v4.0 = "''c4''"
      and ?v5.0 = "''c5''" and ?e0.0 = "''1.0''" and ?e1.0 = "''1.1''" and ?e2.0 = "''1.2''"
      and ?e3.0 = "''1.3''" and ?e4.0 = "''1.4''" and now = 7 and target = "''2.0''",
      OF round_trip_full]
  by simp

section \<open>Arguments that are not checked, and the diff that is undefined\<close>

text \<open>
  The claim C7 fails on the code, which checks none of its arguments: a call with
  \<open>interval = 0\<close> returns a log, and so does a call with an empty log and a \<open>maxTime\<close>.
\<close>

theorem collapseHistory_not_rejected_counterexample:
  "collapseHistory [edit 0 ''a''] [(''a.ts'', ''b'')]
      \<lparr>interval = 0, minTime = None, maxTime = None\<rparr> fullDiff fullPatch 0 ''''
     = Inr [edit 0 ''a'']
   \<and> collapseHistory [] [(''a.ts'', ''b'')]
      \<lparr>interval = 50, minTime = None, maxTime = Some 10\<rparr> fullDiff fullPatch 0 ''''
     = Inr []"
  by (simp add: run_defs)

text \<open>
  Claim C7, as the code has it. With an empty log and no \<open>maxTime\<close> the call raises a
  \<open>TypeError\<close> (reading the time of the last entry) before the loop, so that nothing is
  produced; with an empty log and a \<open>maxTime\<close> it returns the empty log. No \<open>interval\<close> is
  rejected: for every \<open>interval\<close>, also zero or negative, a log of one entry is returned as
  it is.
\<close>

theorem collapseHistory_no_validation:
  "collapseHistory [] S \<lparr>interval = iv, minTime = mn, maxTime = None\<rparr> diff patch now target
     = Inl TypeError
   \<and> collapseHistory [] S \<lparr>interval = iv, minTime = mn, maxTime = Some m\<rparr> diff patch now target
     = Inr []
   \<and> collapseHistory [e] S \<lparr>interval = iv, minTime = mn, maxTime = mx\<rparr> diff patch now target
     = Inr [e]"
  by (simp add: collapseHistory_def maxTimeOf_def step_def flush_def split: option.splits)

text \<open>
  Claim C10. There are valid inputs, non-empty sorted logs in which the entries of one
  group cancel out, for which \<open>collapseHistory\<close> raises a \<open>TypeError\<close> on reading
  \<open>.changes\<close> of the result \<open>undefined\<close> of \<open>diffScriptText\<close>: one for the place after the
  loop, one for the place in the loop where the interval is exceeded, and one for the
  place below the window. A place that emits a group raises exactly when the group has
  more than one entry and its net diff is empty.
\<close>

theorem collapseHistory_flush_undefined:
  "collapseHistory [edit 0 ''a'', edit 10 ''b''] [(''a.ts'', ''a'')]
      \<lparr>interval = 50, minTime = None, maxTime = None\<rparr> fullDiff fullPatch now target
     = Inl TypeError
   \<and> collapseHistory [edit 0 ''z'', edit 100 ''a'', edit 110 ''b''] [(''a.ts'', ''a'')]
      \<lparr>interval = 50, minTime = None, maxTime = None\<rparr> fullDiff fullPatch now target
     = Inl TypeError
   \<and> collapseHistory [edit 0 ''z'', edit 100 ''a'', edit 110 ''b''] [(''a.ts'', ''a'')]
      \<lparr>interval = 50, minTime = Some 50, maxTime = None\<rparr> fullDiff fullPatch now target
     = Inl TypeError
   \<and> ((flush diff now target multi orig g cur nh = Inl TypeError)
        = (multi \<and> diffScriptText cur (lastTimeText g) diff now target = None))"
  by (simp add: run_defs split: option.splits)

end
